theory Spec2Isabelle
  imports Main
begin

section \<open>The rendered document: elements with parent and sibling links\<close>

text \<open>
  \<open>buildLineMap\<close> in \<^verbatim>\<open>src/markdown-preview-view/util.ts\<close> parses its argument with the
  browser's \<^verbatim>\<open>DOMParser\<close> and then works on the resulting element tree only. The parser
  is not part of the repository, so the model starts from the parsed tree: an element has
  its \<^verbatim>\<open>tagName\<close>, the value of its \<^verbatim>\<open>data-source-lines\<close> attribute (if it carries one)
  and its child elements. Text and comment nodes are left out: every DOM accessor the
  code uses (\<^verbatim>\<open>querySelectorAll\<close>, \<^verbatim>\<open>previousElementSibling\<close>, \<^verbatim>\<open>parentElement\<close>) skips them.

  Only HTML and SVG elements have a \<^verbatim>\<open>dataset\<close>. An element of another kind (a MathML
  element in the browser the editor ships) can carry the attribute and be selected, yet
  its \<^verbatim>\<open>dataset\<close> is \<^verbatim>\<open>undefined\<close>; \<open>hasDataset\<close> records which kind an element is.
\<close>

datatype element =
  Element (tagName: string) (hasDataset: bool) (dataSourceLines: "string option")
    (childElements: "element list")

text \<open>
  A DOM node is an element together with its links to its parent and siblings. A node
  is therefore an element in context: the frames from its parent up to the document
  element, each holding the preceding siblings (nearest first), the parent's own tag
  name, kind and attribute, and the following siblings.
\<close>

datatype frame =
  Frame (precedingSibs: "element list") (parentTag: string) (parentHasDataset: bool)
    (parentAttr: "string option") (followingSibs: "element list")

type_synonym node = "element \<times> frame list"

fun nodeTagName :: "node \<Rightarrow> string" where
  "nodeTagName (e, fs) = tagName e"

fun parentElement :: "node \<Rightarrow> node option" where
  "parentElement (e, []) = None"
| "parentElement (e, Frame ls t d a rs # fs) = Some (Element t d a (rev ls @ e # rs), fs)"

fun previousElementSibling :: "node \<Rightarrow> node option" where
  "previousElementSibling (e, []) = None"
| "previousElementSibling (e, Frame [] t d a rs # fs) = None"
| "previousElementSibling (e, Frame (l # ls) t d a rs # fs) =
     Some (l, Frame ls t d a (e # rs) # fs)"

text \<open>All elements of the document in document order (preorder), each with its context.\<close>

fun elementsOf :: "element \<Rightarrow> frame list \<Rightarrow> node list"
  and childNodesOf ::
    "element list \<Rightarrow> string \<Rightarrow> bool \<Rightarrow> string option \<Rightarrow> element list \<Rightarrow> frame list \<Rightarrow> node list"
where
  "elementsOf (Element t d a cs) fs = (Element t d a cs, fs) # childNodesOf [] t d a cs fs"
| "childNodesOf ls t d a [] fs = []"
| "childNodesOf ls t d a (c # cs) fs =
     elementsOf c (Frame ls t d a cs # fs) @ childNodesOf (c # ls) t d a cs fs"

text \<open>\<^verbatim>\<open>dom.querySelectorAll(`[data-source-lines]`)\<close>: the elements carrying the attribute,
  in document order.\<close>

definition querySelectorAll :: "element \<Rightarrow> node list" where
  "querySelectorAll root = filter (\<lambda>n. dataSourceLines (fst n) \<noteq> None) (elementsOf root [])"

text \<open>\<^verbatim>\<open>he.dataset.sourceLines\<close>: the value of the attribute, read through the \<^verbatim>\<open>dataset\<close>.
  \<open>None\<close> stands for a read that yields no string: without a \<^verbatim>\<open>dataset\<close> the property access
  itself throws, and without the attribute the entry is \<^verbatim>\<open>undefined\<close>.\<close>

definition datasetSourceLines :: "element \<Rightarrow> string option" where
  "datasetSourceLines e = (if hasDataset e then dataSourceLines e else None)"

section \<open>JavaScript values and string operations used by the builder\<close>

text \<open>
  A \<open>char\<close> stands for a UTF-16 code unit below 256. \<open>Undefined\<close> is what array
  destructuring yields for a missing position. A number is \<open>NaN\<close> or an integer.

  JavaScript numbers are doubles, the model's are mathematical integers. The two agree
  as long as every number involved has magnitude at most \<open>2^53\<close>: there \<^verbatim>\<open>parseInt\<close> is
  exact and \<^verbatim>\<open>++i\<close> adds one. Beyond, the code's \<^verbatim>\<open>parseInt\<close> rounds, and \<^verbatim>\<open>++i\<close> leaves
  \<open>2^53\<close> unchanged, so that a loop running past \<open>2^53\<close> never ends. The model does not
  follow the code there; \<open>linesInRange\<close> below names the documents on which it does, and
  the statements saying which entry a line receives, or that an element is skipped,
  assume it.
\<close>

datatype jsval = Undefined | NaN | Num int

text \<open>\<^verbatim>\<open>String.prototype.split(' ')\<close>: always at least one token, empty tokens kept.\<close>

fun split :: "string \<Rightarrow> string list" where
  "split [] = [[]]"
| "split (c # cs) =
     (if c = CHR '' '' then [] # split cs
      else (case split cs of [] \<Rightarrow> [[c]] | t # ts \<Rightarrow> (c # t) # ts))"

definition isWhiteSpace :: "char \<Rightarrow> bool" where
  "isWhiteSpace c \<longleftrightarrow> c \<in> set [CHR 0x09, CHR 0x0A, CHR 0x0B, CHR 0x0C, CHR 0x0D, CHR 0x20, CHR 0xA0]"

definition isDigit :: "char \<Rightarrow> bool" where
  "isDigit c \<longleftrightarrow> (let k = (of_char c :: nat) in 48 \<le> k \<and> k \<le> 57)"

definition digitValue :: "char \<Rightarrow> int" where
  "digitValue c = int (of_char c) - 48"

text \<open>\<^verbatim>\<open>parseInt(x, 10)\<close>: leading white space is skipped, one sign is read, then the longest
  run of decimal digits; no digit gives \<open>NaN\<close>; whatever follows the digits is ignored.\<close>

definition parseInt :: "string \<Rightarrow> jsval" where
  "parseInt x =
     (let s = dropWhile isWhiteSpace x;
          negative = (case s of [] \<Rightarrow> False | c # _ \<Rightarrow> c = CHR ''-'');
          s' = (case s of [] \<Rightarrow> [] | c # cs \<Rightarrow> if c = CHR ''-'' \<or> c = CHR ''+'' then cs else s);
          z = takeWhile isDigit s'
      in if z = [] then NaN
         else Num ((if negative then - 1 else 1) * foldl (\<lambda>acc c. 10 * acc + digitValue c) 0 z))"

text \<open>Reading an array position: \<open>Undefined\<close> beyond the end.\<close>

definition arrayGet :: "jsval list \<Rightarrow> nat \<Rightarrow> jsval" where
  "arrayGet xs k = (if k < length xs then xs ! k else Undefined)"

text \<open>\<^verbatim>\<open>const [start, end] = s.split(' ').map((x) => parseInt(x, 10))\<close>\<close>

definition parseRange :: "string \<Rightarrow> jsval \<times> jsval" where
  "parseRange s = (let xs = map parseInt (split s) in (arrayGet xs 0, arrayGet xs 1))"

text \<open>The relational operator \<^verbatim>\<open><\<close> on numbers: false as soon as one side is \<open>NaN\<close>
  (\<open>undefined\<close> converts to \<open>NaN\<close>).\<close>

fun jsLess :: "jsval \<Rightarrow> jsval \<Rightarrow> bool" where
  "jsLess (Num a) (Num b) = (a < b)"
| "jsLess _ _ = False"

text \<open>\<^verbatim>\<open>String.prototype.toLowerCase\<close> on code units below 256: the letters A to Z and the
  Latin-1 capitals (0xC0 to 0xDE, the multiplication sign 0xD7 apart) move up by 32.\<close>

definition isUpperCase :: "char \<Rightarrow> bool" where
  "isUpperCase c \<longleftrightarrow>
     (let k = (of_char c :: nat) in (65 \<le> k \<and> k \<le> 90) \<or> (192 \<le> k \<and> k \<le> 222 \<and> k \<noteq> 215))"

definition toLowerChar :: "char \<Rightarrow> char" where
  "toLowerChar c = (if isUpperCase c then char_of ((of_char c :: nat) + 32) else c)"

definition toLowerCase :: "string \<Rightarrow> string" where
  "toLowerCase s = map toLowerChar s"

section \<open>The line-map builder\<close>

record step =
  tag :: string
  index :: nat

type_synonym lineMap = "int \<rightharpoonup> step list"

datatype error = TypeError

text \<open>
  The source writes its loops inline; each becomes a recursive function named after what
  it does. The source's variables \<open>index\<close> and \<open>end\<close> appear as \<open>idx\<close> and \<open>end'\<close>.

  The inner loop of the path computation:
  \<^verbatim>\<open>while (sib.previousElementSibling) { sib = sib.previousElementSibling
       if (sib.tagName === e.tagName) index++ }\<close>
  with \<open>t\<close> the tag name of \<open>e\<close>.
\<close>

function countSiblings :: "string \<Rightarrow> node \<Rightarrow> nat \<Rightarrow> nat" where
  "countSiblings t sib idx =
     (case previousElementSibling sib of
        None \<Rightarrow> idx
      | Some sib' \<Rightarrow> countSiblings t sib' (if nodeTagName sib' = t then idx + 1 else idx))"
  by pat_completeness auto
termination
proof (relation "measure (\<lambda>(t, sib, idx). case snd sib of [] \<Rightarrow> 0 | f # _ \<Rightarrow> length (precedingSibs f))")
  show "wf (measure (\<lambda>(t, sib, idx). case snd sib of [] \<Rightarrow> 0 | f # _ \<Rightarrow> length (precedingSibs f)))"
    by simp
next
  fix t :: string and sib sib' :: node and idx :: nat
  assume "previousElementSibling sib = Some sib'"
  then show "((t, sib', if nodeTagName sib' = t then idx + 1 else idx), (t, sib, idx))
    \<in> measure (\<lambda>(t, sib, idx). case snd sib of [] \<Rightarrow> 0 | f # _ \<Rightarrow> length (precedingSibs f))"
    by (cases sib rule: previousElementSibling.cases) auto
qed

text \<open>
  The outer loop:
  \<^verbatim>\<open>while (e && e.tagName !== 'BODY') { ...
       path.unshift({ tag: e.tagName.toLowerCase(), index }); e = e.parentElement }\<close>
\<close>

function walkUp :: "node option \<Rightarrow> step list \<Rightarrow> step list" where
  "walkUp None path = path"
| "walkUp (Some e) path =
     (if nodeTagName e = ''BODY'' then path
      else walkUp (parentElement e)
             (\<lparr>tag = toLowerCase (nodeTagName e), index = countSiblings (nodeTagName e) e 0\<rparr> # path))"
  by pat_completeness auto
termination
proof (relation "measure (\<lambda>(e, path). case e of None \<Rightarrow> 0 | Some n \<Rightarrow> Suc (length (snd n)))")
  show "wf (measure (\<lambda>(e, path). case e of None \<Rightarrow> 0 | Some n \<Rightarrow> Suc (length (snd n))))"
    by simp
next
  fix e :: node and path :: "step list"
  show "((parentElement e,
          \<lparr>tag = toLowerCase (nodeTagName e), index = countSiblings (nodeTagName e) e 0\<rparr> # path),
         (Some e, path))
    \<in> measure (\<lambda>(e, path). case e of None \<Rightarrow> 0 | Some n \<Rightarrow> Suc (length (snd n)))"
    by (cases e rule: parentElement.cases) auto
qed

definition pathOf :: "node \<Rightarrow> step list" where
  "pathOf elem = walkUp (Some elem) []"

text \<open>
  \<^verbatim>\<open>for (let i = start; i < end; ++i) {
       if (!map[i] || map[i].length < path.length) map[i] = path }\<close>
  A stored path is an array, hence truthy even when empty: \<^verbatim>\<open>!map[i]\<close> holds exactly when
  line \<open>i\<close> has no entry.
\<close>

function forLines :: "int \<Rightarrow> jsval \<Rightarrow> step list \<Rightarrow> lineMap \<Rightarrow> lineMap" where
  "forLines i end' path m =
     (if jsLess (Num i) end'
      then forLines (i + 1) end' path
             (if (case m i of None \<Rightarrow> True | Some old \<Rightarrow> length old < length path)
              then m(i \<mapsto> path) else m)
      else m)"
  by pat_completeness auto
termination
  by (relation "measure (\<lambda>(i, end', path, m). case end' of Num b \<Rightarrow> nat (b - i) | _ \<Rightarrow> 0)")
     (auto elim: jsLess.elims)

declare forLines.simps [simp del] countSiblings.simps [simp del]

text \<open>The loop variable starts as \<open>start\<close>; when that is not a number the first test
  \<^verbatim>\<open>i < end\<close> is already false.\<close>

definition lineLoop :: "jsval \<Rightarrow> jsval \<Rightarrow> step list \<Rightarrow> lineMap \<Rightarrow> lineMap" where
  "lineLoop start end' path m =
     (case start of Num i \<Rightarrow> forLines i end' path m | _ \<Rightarrow> m)"

text \<open>
  The body of the loop over the selected elements. The cast \<^verbatim>\<open>elem as HTMLElement\<close> and
  the \<^verbatim>\<open>!\<close> in \<^verbatim>\<open>he.dataset.sourceLines!.split(' ')\<close> are erased at run time: on a selected
  element without a \<^verbatim>\<open>dataset\<close> the read throws a \<^verbatim>\<open>TypeError\<close>, and so would \<^verbatim>\<open>.split\<close>
  on an absent value.
\<close>

definition processElement :: "lineMap \<Rightarrow> node \<Rightarrow> error + lineMap" where
  "processElement m elem =
     (case datasetSourceLines (fst elem) of
        None \<Rightarrow> Inl TypeError
      | Some s \<Rightarrow>
          (case parseRange s of (start, end') \<Rightarrow> Inr (lineLoop start end' (pathOf elem) m)))"

fun forElements :: "node list \<Rightarrow> lineMap \<Rightarrow> error + lineMap" where
  "forElements [] m = Inr m"
| "forElements (elem # rest) m =
     (case processElement m elem of
        Inl err \<Rightarrow> Inl err
      | Inr m' \<Rightarrow> forElements rest m')"

text \<open>\<open>buildLineMap\<close> on the parsed document, given by its document element.\<close>

definition buildLineMap :: "element \<Rightarrow> error + lineMap" where
  "buildLineMap root = forElements (querySelectorAll root) Map.empty"

section \<open>Editor lookup\<close>

text \<open>
  \<^verbatim>\<open>editorForId\<close> scans \<^verbatim>\<open>atom.workspace.getTextEditors()\<close>; the workspace's editors are
  passed explicitly. An editor has its numeric id and the rest of its state.
\<close>

record 'a TextEditor =
  editor_id :: int
  editor_state :: 'a

fun editorForId :: "'a TextEditor list \<Rightarrow> int \<Rightarrow> 'a TextEditor option" where
  "editorForId [] editorId = None"
| "editorForId (editor # editors) editorId =
     (if editor_id editor = editorId then Some editor else editorForId editors editorId)"

section \<open>Vocabulary of the specification\<close>

text \<open>
  An annotated element covers line \<open>i\<close> when its attribute parses to two numbers
  \<open>start\<close>, \<open>end\<close> and \<open>i\<close> lies in the half-open range \<open>[start, end)\<close>.
\<close>

definition coversLine :: "node \<Rightarrow> int \<Rightarrow> bool" where
  "coversLine n i =
     (case dataSourceLines (fst n) of
        None \<Rightarrow> False
      | Some s \<Rightarrow> (case parseRange s of (Num a, Num b) \<Rightarrow> a \<le> i \<and> i < b | _ \<Rightarrow> False))"

text \<open>
  The documents on which the model's integers are the code's doubles: the two numbers
  parsed for every selected element have magnitude at most \<open>2^53\<close>.
\<close>

definition exactNumber :: "jsval \<Rightarrow> bool" where
  "exactNumber v = (case v of Num n \<Rightarrow> - (2 ^ 53) \<le> n \<and> n \<le> 2 ^ 53 | _ \<Rightarrow> True)"

definition linesInRange :: "element \<Rightarrow> bool" where
  "linesInRange root \<longleftrightarrow>
     (\<forall>n \<in> set (querySelectorAll root).
        case dataSourceLines (fst n) of
          None \<Rightarrow> True
        | Some s \<Rightarrow> exactNumber (fst (parseRange s)) \<and> exactNumber (snd (parseRange s)))"

text \<open>
  Position \<open>k\<close> of the list \<open>ns\<close> (elements in document order) holds the first of the
  deepest elements covering line \<open>i\<close>: it covers \<open>i\<close>, no covering element has a longer
  path, and every covering element before it has a strictly shorter one.
\<close>

definition firstDeepest :: "node list \<Rightarrow> int \<Rightarrow> nat \<Rightarrow> bool" where
  "firstDeepest ns i k \<longleftrightarrow>
     k < length ns \<and> coversLine (ns ! k) i \<and>
     (\<forall>n \<in> set ns. coversLine n i \<longrightarrow> length (pathOf n) \<le> length (pathOf (ns ! k))) \<and>
     (\<forall>n \<in> set (take k ns). coversLine n i \<longrightarrow> length (pathOf n) < length (pathOf (ns ! k)))"

text \<open>
  The structural path as the specification words it: the element and its ancestors up
  to, but excluding, the body element; for each of them its lower-cased tag and the
  number of preceding siblings with the same tag name; listed from the outermost one.
\<close>

function selfAndAncestors :: "node \<Rightarrow> node list" where
  "selfAndAncestors n =
     n # (case parentElement n of None \<Rightarrow> [] | Some p \<Rightarrow> selfAndAncestors p)"
  by pat_completeness auto
termination
proof (relation "measure (\<lambda>n. length (snd n))")
  show "wf (measure (\<lambda>n :: node. length (snd n)))"
    by simp
next
  fix n p :: node
  assume "parentElement n = Some p"
  then show "(p, n) \<in> measure (\<lambda>n. length (snd n))"
    by (cases n rule: parentElement.cases) auto
qed

declare selfAndAncestors.simps [simp del]

definition precedingSiblings :: "node \<Rightarrow> element list" where
  "precedingSiblings n = (case snd n of [] \<Rightarrow> [] | f # _ \<Rightarrow> precedingSibs f)"

definition siblingIndex :: "node \<Rightarrow> nat" where
  "siblingIndex n = length (filter (\<lambda>s. tagName s = nodeTagName n) (precedingSiblings n))"

definition stepOf :: "node \<Rightarrow> step" where
  "stepOf n = \<lparr>tag = toLowerCase (nodeTagName n), index = siblingIndex n\<rparr>"

definition structuralPath :: "node \<Rightarrow> step list" where
  "structuralPath n =
     rev (map stepOf (takeWhile (\<lambda>a. nodeTagName a \<noteq> ''BODY'') (selfAndAncestors n)))"

text \<open>
  In a document built by the HTML parser the only element whose tag name lower-cases to
  \<open>body\<close> is the HTML body element, and the \<^verbatim>\<open>tagName\<close> of an HTML element is upper case:
  only SVG and MathML elements keep the case of their name, and the parser never creates
  one named \<open>body\<close> (inside foreign content a \<open>body\<close> start tag closes the foreign
  elements and is merged into the document's body). The parser is outside the
  repository; the predicate records this property of its output.
\<close>

definition bodyTagIsHtml :: "element \<Rightarrow> bool" where
  "bodyTagIsHtml root \<longleftrightarrow>
     (\<forall>n \<in> set (elementsOf root []).
        toLowerCase (nodeTagName n) = ''body'' \<longrightarrow> nodeTagName n = ''BODY'')"

text \<open>The effect of one selected element on the map, without the error channel.\<close>

definition accepts :: "step list option \<Rightarrow> step list \<Rightarrow> bool" where
  "accepts old path = (case old of None \<Rightarrow> True | Some q \<Rightarrow> length q < length path)"

definition applyElement :: "lineMap \<Rightarrow> node \<Rightarrow> lineMap" where
  "applyElement m elem =
     (case dataSourceLines (fst elem) of
        None \<Rightarrow> m
      | Some s \<Rightarrow> (case parseRange s of (start, end') \<Rightarrow> lineLoop start end' (pathOf elem) m))"

section \<open>Example documents\<close>

text \<open>Every document has the shape the parser gives it: \<open>html\<close> with \<open>head\<close> and \<open>body\<close>.
  \<open>Html\<close> builds an HTML element, which has a \<^verbatim>\<open>dataset\<close>.\<close>

definition Html :: "string \<Rightarrow> string option \<Rightarrow> element list \<Rightarrow> element" where
  "Html t a cs = Element t True a cs"

definition document :: "element list \<Rightarrow> element" where
  "document content = Html ''HTML'' None [Html ''HEAD'' None [], Html ''BODY'' None content]"

text \<open>Two sibling paragraphs with overlapping ranges inside a \<open>div\<close>.\<close>

definition docSiblings :: element where
  "docSiblings = document
     [Html ''DIV'' None [Html ''P'' (Some ''0 3'') [], Html ''P'' (Some ''2 5'') []]]"

text \<open>A \<open>div\<close> with range (0,10) holding a \<open>span\<close> with range (2,4).\<close>

definition docNested :: element where
  "docNested = document [Html ''DIV'' (Some ''0 10'') [Html ''SPAN'' (Some ''2 4'') []]]"

text \<open>A \<open>div\<close> with range (0,10) holding two \<open>span\<close>s, both with range (2,4).\<close>

definition docTwoSpans :: element where
  "docTwoSpans = document
     [Html ''DIV'' (Some ''0 10'')
        [Html ''SPAN'' (Some ''2 4'') [], Html ''SPAN'' (Some ''2 4'') []]]"

text \<open>Two paragraphs with range (0,3), the first holding a \<open>span\<close> with the same range.\<close>

definition docDeeperThird :: element where
  "docDeeperThird = document
     [Html ''P'' (Some ''0 3'') [Html ''SPAN'' (Some ''0 3'') []],
      Html ''P'' (Some ''0 3'') []]"

text \<open>Malformed attributes: a word, and a single number.\<close>

definition docMalformed :: element where
  "docMalformed = document [Html ''P'' (Some ''abc'') [], Html ''P'' (Some ''7'') []]"

text \<open>A paragraph with range (0,2) followed by one with the empty range (5,5).\<close>

definition docEmptyRange :: element where
  "docEmptyRange = document [Html ''P'' (Some ''0 2'') [], Html ''P'' (Some ''5 5'') []]"

text \<open>A MathML element carrying the attribute: selected, but without a \<^verbatim>\<open>dataset\<close>.\<close>

definition docForeign :: element where
  "docForeign = document [Element ''math'' False (Some ''0 2'') []]"

section \<open>Parent links stay inside the document\<close>

lemma parent_in_document_aux:
  "n \<in> set (elementsOf e fs) \<Longrightarrow>
     n = (e, fs) \<or> (\<exists>p \<in> set (elementsOf e fs). parentElement n = Some p)"
  "n \<in> set (childNodesOf ls t d a cs fs) \<Longrightarrow>
     (\<exists>p. parentElement n = Some p \<and>
        (p = (Element t d a (rev ls @ cs), fs) \<or> p \<in> set (childNodesOf ls t d a cs fs)))"
proof (induction e fs and ls t d a cs fs arbitrary: n and n rule: elementsOf_childNodesOf.induct)
  case (1 t d a cs fs)
  then show ?case by fastforce
next
  case (2 ls t d a fs)
  then show ?case by simp
next
  case (3 ls t d a c cs fs)
  from "3.prems" consider "n \<in> set (elementsOf c (Frame ls t d a cs # fs))"
    | "n \<in> set (childNodesOf (c # ls) t d a cs fs)" by auto
  then show ?case
  proof cases
    case 1
    with "3.IH"(1) show ?thesis by fastforce
  next
    case 2
    with "3.IH"(2) show ?thesis by fastforce
  qed
qed

lemma parent_in_document:
  assumes "n \<in> set (elementsOf root [])" "parentElement n = Some p"
  shows "p \<in> set (elementsOf root [])"
  using assms parent_in_document_aux(1) [of n root "[]"] by auto


lemma ancestors_in_document:
  assumes "n \<in> set (elementsOf root [])" "a \<in> set (selfAndAncestors n)"
  shows "a \<in> set (elementsOf root [])"
  using assms
proof (induction n rule: selfAndAncestors.induct)
  case (1 n)
  show ?case
  proof (cases "parentElement n")
    case None
    with "1.prems" show ?thesis
      by (subst (asm) selfAndAncestors.simps) simp
  next
    case (Some p)
    with "1.prems"(1) have "p \<in> set (elementsOf root [])"
      by (rule parent_in_document)
    with Some "1.IH" [of p] "1.prems" show ?thesis
      by (subst (asm) (2) selfAndAncestors.simps) auto
  qed
qed

section \<open>The loops in closed form\<close>

lemma forLines_Num:
  "forLines i (Num b) p m j =
     (if i \<le> j \<and> j < b \<and> accepts (m j) p then Some p else m j)"
proof (induction i "Num b" p m rule: forLines.induct)
  case (1 i path m)
  show ?case
  proof (cases "i < b")
    case True
    then show ?thesis
      using 1 by (subst forLines.simps) (auto simp: accepts_def split: option.splits)
  next
    case False
    then show ?thesis by (subst forLines.simps) auto
  qed
qed

lemma forLines_not_Num: "forLines i Undefined p m = m" "forLines i NaN p m = m"
  by (subst forLines.simps, simp)+

lemma lineLoop_apply:
  "lineLoop s e p m j =
     (if (case (s, e) of (Num a, Num b) \<Rightarrow> a \<le> j \<and> j < b | _ \<Rightarrow> False) \<and> accepts (m j) p
      then Some p else m j)"
  by (cases s; cases e) (simp_all add: lineLoop_def forLines_Num forLines_not_Num)

lemma applyElement_apply:
  "applyElement m n j = (if coversLine n j \<and> accepts (m j) (pathOf n) then Some (pathOf n) else m j)"
  by (auto simp: applyElement_def coversLine_def lineLoop_apply split: option.splits prod.splits jsval.splits)

lemma processElement_Inr:
  assumes "processElement m elem = Inr m'"
  shows "datasetSourceLines (fst elem) \<noteq> None \<and> m' = applyElement m elem"
  using assms
  by (auto simp: processElement_def applyElement_def datasetSourceLines_def
      split: option.splits prod.splits if_splits)

lemma processElement_dataset:
  assumes "datasetSourceLines (fst elem) = Some s"
  shows "processElement m elem = Inr (applyElement m elem)"
  using assms
  by (auto simp: processElement_def applyElement_def datasetSourceLines_def
      split: option.splits prod.splits if_splits)

lemma forElements_Inr:
  assumes "forElements ns m = Inr m'"
  shows "(\<forall>n \<in> set ns. datasetSourceLines (fst n) \<noteq> None) \<and> m' = foldl applyElement m ns"
  using assms
proof (induction ns arbitrary: m)
  case Nil
  then show ?case by simp
next
  case (Cons n ns)
  from Cons.prems obtain m1 where m1: "processElement m n = Inr m1" "forElements ns m1 = Inr m'"
    by (auto split: sum.splits)
  from m1(1) have "datasetSourceLines (fst n) \<noteq> None" "m1 = applyElement m n"
    using processElement_Inr by blast+
  with Cons.IH [OF m1(2)] show ?case by simp
qed

lemma forElements_foldl:
  assumes "\<forall>n \<in> set ns. datasetSourceLines (fst n) \<noteq> None"
  shows "forElements ns m = Inr (foldl applyElement m ns)"
  using assms
proof (induction ns arbitrary: m)
  case Nil
  then show ?case by simp
next
  case (Cons n ns)
  then obtain s where "datasetSourceLines (fst n) = Some s" by auto
  then have "processElement m n = Inr (applyElement m n)"
    by (rule processElement_dataset)
  with Cons show ?case by simp
qed

lemma buildLineMap_foldl:
  assumes "buildLineMap root = Inr m"
  shows "m = foldl applyElement Map.empty (querySelectorAll root)"
  using assms forElements_Inr unfolding buildLineMap_def by blast

lemma buildLineMap_datasets:
  assumes "buildLineMap root = Inr m" "n \<in> set (querySelectorAll root)"
  shows "datasetSourceLines (fst n) \<noteq> None"
  using assms forElements_Inr unfolding buildLineMap_def by blast


section \<open>Which path a line ends up with\<close>

lemma firstDeepest_snoc_keep:
  assumes "firstDeepest ns i k" "coversLine n i \<longrightarrow> length (pathOf n) \<le> length (pathOf (ns ! k))"
  shows "firstDeepest (ns @ [n]) i k"
  using assms by (auto simp: firstDeepest_def nth_append)

lemma firstDeepest_snoc_new:
  assumes "coversLine n i" "\<forall>n' \<in> set ns. coversLine n' i \<longrightarrow> length (pathOf n') < length (pathOf n)"
  shows "firstDeepest (ns @ [n]) i (length ns)"
  using assms by (auto simp: firstDeepest_def nth_append dest: order.strict_implies_order)

lemma firstDeepest_unique:
  assumes "firstDeepest ns i k" "firstDeepest ns i l"
  shows "k = l"
proof (rule ccontr)
  assume "k \<noteq> l"
  then consider "k < l" | "l < k" by linarith
  then show False
  proof cases
    case 1
    with assms have "ns ! k \<in> set (take l ns)"
      by (auto simp: firstDeepest_def in_set_conv_nth intro!: exI [of _ k])
    with assms have "length (pathOf (ns ! k)) < length (pathOf (ns ! l))"
      by (auto simp: firstDeepest_def)
    moreover from assms have "length (pathOf (ns ! l)) \<le> length (pathOf (ns ! k))"
      by (auto simp: firstDeepest_def)
    ultimately show False by simp
  next
    case 2
    with assms have "ns ! l \<in> set (take k ns)"
      by (auto simp: firstDeepest_def in_set_conv_nth intro!: exI [of _ l])
    with assms have "length (pathOf (ns ! l)) < length (pathOf (ns ! k))"
      by (auto simp: firstDeepest_def)
    moreover from assms have "length (pathOf (ns ! k)) \<le> length (pathOf (ns ! l))"
      by (auto simp: firstDeepest_def)
    ultimately show False by simp
  qed
qed

lemma foldl_applyElement_inv:
  "(case foldl applyElement Map.empty ns i of
      None \<Rightarrow> \<forall>n \<in> set ns. \<not> coversLine n i
    | Some p \<Rightarrow> \<exists>k. firstDeepest ns i k \<and> p = pathOf (ns ! k))"
proof (induction ns rule: rev_induct)
  case Nil
  then show ?case by simp
next
  case (snoc n ns)
  let ?m = "foldl applyElement Map.empty ns"
  let ?m' = "foldl applyElement Map.empty (ns @ [n])"
  have step: "?m' i = (if coversLine n i \<and> accepts (?m i) (pathOf n) then Some (pathOf n) else ?m i)"
    by (simp only: foldl_append foldl.simps applyElement_apply)
  let ?goal = "case ?m' i of
      None \<Rightarrow> \<forall>n' \<in> set (ns @ [n]). \<not> coversLine n' i
    | Some p \<Rightarrow> \<exists>k. firstDeepest (ns @ [n]) i k \<and> p = pathOf ((ns @ [n]) ! k)"
  have new: "?goal" if fd: "firstDeepest (ns @ [n]) i (length ns)" and val: "?m' i = Some (pathOf n)"
    unfolding val option.case using fd by (intro exI [of _ "length ns"]) simp
  show ?goal
  proof (cases "?m i")
    case None
    with snoc have no: "\<forall>n' \<in> set ns. \<not> coversLine n' i" by simp
    show ?thesis
    proof (cases "coversLine n i")
      case True
      with no have "firstDeepest (ns @ [n]) i (length ns)"
        by (intro firstDeepest_snoc_new) auto
      moreover from None True have "?m' i = Some (pathOf n)"
        unfolding step by (simp add: accepts_def)
      ultimately show ?thesis by (rule new)
    next
      case False
      with None have "?m' i = None" unfolding step by simp
      with False no show ?thesis unfolding \<open>?m' i = None\<close> option.case by simp
    qed
  next
    case (Some p)
    with snoc obtain k where k: "firstDeepest ns i k" "p = pathOf (ns ! k)" by auto
    then have klt: "k < length ns" by (simp add: firstDeepest_def)
    show ?thesis
    proof (cases "coversLine n i \<and> length p < length (pathOf n)")
      case True
      with k have "\<forall>n' \<in> set ns. coversLine n' i \<longrightarrow> length (pathOf n') < length (pathOf n)"
        by (auto simp: firstDeepest_def)
      with True have "firstDeepest (ns @ [n]) i (length ns)"
        by (intro firstDeepest_snoc_new) auto
      moreover from Some True have "?m' i = Some (pathOf n)"
        unfolding step by (simp add: accepts_def)
      ultimately show ?thesis by (rule new)
    next
      case False
      with k have fd: "firstDeepest (ns @ [n]) i k"
        by (intro firstDeepest_snoc_keep) auto
      from Some False have val: "?m' i = Some p"
        unfolding step by (auto simp: accepts_def)
      show ?thesis
        unfolding val option.case using fd k klt by (intro exI [of _ k]) (simp add: nth_append)
    qed
  qed
qed

lemma foldl_applyElement_Some:
  "foldl applyElement Map.empty ns i = Some p \<Longrightarrow> \<exists>k. firstDeepest ns i k \<and> p = pathOf (ns ! k)"
  using foldl_applyElement_inv [of ns i] by simp

lemma foldl_applyElement_firstDeepest:
  assumes "firstDeepest ns i k"
  shows "foldl applyElement Map.empty ns i = Some (pathOf (ns ! k))"
proof (cases "foldl applyElement Map.empty ns i")
  case None
  with foldl_applyElement_inv [of ns i] have "\<forall>n \<in> set ns. \<not> coversLine n i" by simp
  with assms show ?thesis by (auto simp: firstDeepest_def)
next
  case (Some p)
  then obtain l where "firstDeepest ns i l" "p = pathOf (ns ! l)"
    using foldl_applyElement_Some by blast
  with assms Some show ?thesis using firstDeepest_unique by blast
qed

lemma foldl_applyElement_covered:
  assumes "n \<in> set ns" "coversLine n i"
  shows "\<exists>k. firstDeepest ns i k"
proof (cases "foldl applyElement Map.empty ns i")
  case None
  with foldl_applyElement_inv [of ns i] assms show ?thesis by auto
next
  case (Some p)
  then show ?thesis using foldl_applyElement_Some by blast
qed

section \<open>The path computation\<close>

lemma countSiblings_eq:
  "countSiblings t sib k = k + length (filter (\<lambda>s. tagName s = t) (precedingSiblings sib))"
proof (induction t sib k rule: countSiblings.induct)
  case (1 t sib k)
  show ?case
  proof (cases sib rule: previousElementSibling.cases)
    case (1 e)
    then show ?thesis by (subst countSiblings.simps) (simp add: precedingSiblings_def)
  next
    case (2 e t' d a rs fs)
    then show ?thesis by (subst countSiblings.simps) (simp add: precedingSiblings_def)
  next
    case (3 e l ls t' d a rs fs)
    then show ?thesis
      using "1.IH" [of "(l, Frame ls t' d a (e # rs) # fs)"]
      by (subst countSiblings.simps) (simp add: precedingSiblings_def)
  qed
qed

lemma walkUp_eq:
  "walkUp (Some n) acc =
     rev (map stepOf (takeWhile (\<lambda>a. nodeTagName a \<noteq> ''BODY'') (selfAndAncestors n))) @ acc"
proof (induction "Some n" acc arbitrary: n rule: walkUp.induct)
  case (2 e path)
  show ?case
  proof (cases "nodeTagName e = ''BODY''")
    case True
    then show ?thesis by (subst selfAndAncestors.simps) simp
  next
    case False
    show ?thesis
    proof (cases "parentElement e")
      case None
      with False show ?thesis
        by (subst selfAndAncestors.simps)
           (simp add: stepOf_def siblingIndex_def countSiblings_eq)
    next
      case (Some p)
      with False 2 [of p] show ?thesis
        by (subst selfAndAncestors.simps)
           (simp add: stepOf_def siblingIndex_def countSiblings_eq)
    qed
  qed
qed

lemma toLowerChar_not_upper: "\<not> isUpperCase (toLowerChar c)"
proof (cases "isUpperCase c")
  case True
  then have "(of_char c :: nat) + 32 < 256"
    by (auto simp: isUpperCase_def Let_def)
  then have "(of_char (char_of ((of_char c :: nat) + 32) :: char) :: nat) = of_char c + 32"
    by simp
  with True show ?thesis
    by (auto simp: toLowerChar_def isUpperCase_def Let_def)
next
  case False
  then show ?thesis by (simp add: toLowerChar_def)
qed

lemma toLowerCase_no_upper: "c \<in> set (toLowerCase s) \<Longrightarrow> \<not> isUpperCase c"
  by (auto simp: toLowerCase_def toLowerChar_not_upper)

lemma pathOf_tags:
  assumes "s \<in> set (pathOf n)"
  shows "\<exists>a \<in> set (selfAndAncestors n). nodeTagName a \<noteq> ''BODY'' \<and> tag s = toLowerCase (nodeTagName a)"
proof -
  from assms obtain a where a: "a \<in> set (takeWhile (\<lambda>a. nodeTagName a \<noteq> ''BODY'') (selfAndAncestors n))"
    "s = stepOf a"
    by (auto simp: pathOf_def walkUp_eq simp del: walkUp.simps)
  from a(1) have "a \<in> set (selfAndAncestors n)" "nodeTagName a \<noteq> ''BODY''"
    by (auto dest: set_takeWhileD)
  with a(2) show ?thesis by (auto simp: stepOf_def)
qed

section \<open>The map returned by the builder\<close>

lemma stored_path_firstDeepest:
  assumes "buildLineMap root = Inr m" "m i = Some p"
  shows "\<exists>k. firstDeepest (querySelectorAll root) i k \<and> p = pathOf (querySelectorAll root ! k)"
proof -
  from assms(1) have "m = foldl applyElement Map.empty (querySelectorAll root)"
    by (rule buildLineMap_foldl)
  with assms(2) show ?thesis
    by (simp add: foldl_applyElement_Some)
qed

lemma covered_line_stored:
  assumes "buildLineMap root = Inr m" "n \<in> set (querySelectorAll root)" "coversLine n i"
  shows "\<exists>k. firstDeepest (querySelectorAll root) i k \<and> m i = Some (pathOf (querySelectorAll root ! k))"
proof -
  from assms(1) have m: "m = foldl applyElement Map.empty (querySelectorAll root)"
    by (rule buildLineMap_foldl)
  from assms(2,3) obtain k where "firstDeepest (querySelectorAll root) i k"
    using foldl_applyElement_covered by blast
  then show ?thesis
    unfolding m using foldl_applyElement_firstDeepest by blast
qed

lemma Inr_projr: "\<not> isl r \<Longrightarrow> r = Inr (projr r)"
  by (cases r) simp_all

lemma lineLoop_keeps:
  assumes "m j = Some q" "length p \<le> length q"
  shows "lineLoop s e p m j = Some q"
  using assms by (simp add: lineLoop_apply accepts_def)

lemma buildLineMap_returns:
  assumes "\<forall>n \<in> set (querySelectorAll root). hasDataset (fst n)"
  shows "\<exists>m. buildLineMap root = Inr m"
proof -
  from assms have "\<forall>n \<in> set (querySelectorAll root). datasetSourceLines (fst n) \<noteq> None"
    by (auto simp: querySelectorAll_def datasetSourceLines_def)
  then show ?thesis
    unfolding buildLineMap_def by (simp add: forElements_foldl)
qed

lemma missing_dataset_throws: "buildLineMap docForeign = Inl TypeError"
proof -
  have "isl (buildLineMap docForeign)"
    by code_simp
  then obtain e where "buildLineMap docForeign = Inl e"
    by (cases "buildLineMap docForeign") auto
  then show ?thesis
    by (cases e) simp
qed

lemma lineLoop_noop:
  assumes "\<not> (\<exists>a b. start = Num a \<and> end' = Num b \<and> a < b)"
  shows "lineLoop start end' p m = m"
proof
  fix j
  from assms show "lineLoop start end' p m j = m j"
    by (cases start; cases end') (auto simp: lineLoop_apply)
qed

lemma forElements_skip:
  assumes "\<And>m. processElement m elem = Inr m"
  shows "forElements (xs @ elem # ys) m0 = forElements (xs @ ys) m0"
  using assms by (induction xs arbitrary: m0) (auto split: sum.splits)

lemma split_not_Nil: "split s \<noteq> []"
  by (induction s) (auto split: list.splits)

lemma parseRange_malformed:
  assumes "length (split s) < 2 \<or> parseInt (split s ! 0) = NaN \<or> parseInt (split s ! 1) = NaN"
  shows "fst (parseRange s) = NaN \<or> snd (parseRange s) = NaN \<or> snd (parseRange s) = Undefined"
proof -
  have "0 < length (split s)" using split_not_Nil [of s] by simp
  with assms show ?thesis
    by (auto simp: parseRange_def arrayGet_def Let_def)
qed

section \<open>Claims\<close>

text \<open>
  C3 (soundness). Every line \<open>i\<close> that is a key of the map returned by \<open>buildLineMap\<close>
  lies in the half-open range \<open>[start, end)\<close> of an element carrying the attribute, and
  the path stored for \<open>i\<close> is the path computed for such an element.
\<close>

theorem lineMap_sound:
  assumes "buildLineMap root = Inr m" and "m i = Some p"
  shows "\<exists>n s a b. n \<in> set (querySelectorAll root) \<and> dataSourceLines (fst n) = Some s \<and>
           parseRange s = (Num a, Num b) \<and> a \<le> i \<and> i < b \<and> p = pathOf n"
proof -
  from assms obtain k where k: "firstDeepest (querySelectorAll root) i k"
    and p: "p = pathOf (querySelectorAll root ! k)"
    using stored_path_firstDeepest by blast
  let ?n = "querySelectorAll root ! k"
  from k have "?n \<in> set (querySelectorAll root)" "coversLine ?n i"
    by (simp_all add: firstDeepest_def)
  moreover from this(2) obtain s a b where "dataSourceLines (fst ?n) = Some s"
    "parseRange s = (Num a, Num b)" "a \<le> i" "i < b"
    by (auto simp: coversLine_def split: option.splits prod.splits jsval.splits)
  ultimately show ?thesis using p by blast
qed

theorem lineMap_sound_witness:
  "buildLineMap docSiblings = Inr (projr (buildLineMap docSiblings)) \<and>
   projr (buildLineMap docSiblings) 2 = Some [\<lparr>tag = ''div'', index = 0\<rparr>, \<lparr>tag = ''p'', index = 0\<rparr>] \<and>
   (\<exists>n s a b. n \<in> set (querySelectorAll docSiblings) \<and> dataSourceLines (fst n) = Some s \<and>
      parseRange s = (Num a, Num b) \<and> a \<le> 2 \<and> 2 < b \<and>
      [\<lparr>tag = ''div'', index = 0\<rparr>, \<lparr>tag = ''p'', index = 0\<rparr>] = pathOf n)"
proof -
  have "\<not> isl (buildLineMap docSiblings)"
    by code_simp
  then have h1: "buildLineMap docSiblings = Inr (projr (buildLineMap docSiblings))"
    by (rule Inr_projr)
  have h2: "projr (buildLineMap docSiblings) 2 = Some [\<lparr>tag = ''div'', index = 0\<rparr>, \<lparr>tag = ''p'', index = 0\<rparr>]"
    by code_simp
  from h1 h2 lineMap_sound [OF h1 h2] show ?thesis
    by blast
qed

text \<open>
  C1 (specificity), as stated: whenever two annotated elements \<open>A\<close> and \<open>B\<close> cover line
  \<open>i\<close> and \<open>B\<close>'s path is strictly longer than \<open>A\<close>'s, the map stores \<open>B\<close>'s path for
  \<open>i\<close>. This fails in \<open>docTwoSpans\<close>: the \<open>div\<close> and the second \<open>span\<close> both cover line 2
  and the second \<open>span\<close> is nested more deeply, yet line 2 maps to the first \<open>span\<close>,
  which is as deep and comes earlier.
\<close>

theorem specificity_counterexample:
  "querySelectorAll docTwoSpans ! 0 \<in> set (querySelectorAll docTwoSpans) \<and>
   querySelectorAll docTwoSpans ! 2 \<in> set (querySelectorAll docTwoSpans) \<and>
   coversLine (querySelectorAll docTwoSpans ! 0) 2 \<and>
   coversLine (querySelectorAll docTwoSpans ! 2) 2 \<and>
   pathOf (querySelectorAll docTwoSpans ! 0) = [\<lparr>tag = ''div'', index = 0\<rparr>] \<and>
   pathOf (querySelectorAll docTwoSpans ! 2) = [\<lparr>tag = ''div'', index = 0\<rparr>, \<lparr>tag = ''span'', index = 1\<rparr>] \<and>
   \<not> isl (buildLineMap docTwoSpans) \<and>
   projr (buildLineMap docTwoSpans) 2 = Some [\<lparr>tag = ''div'', index = 0\<rparr>, \<lparr>tag = ''span'', index = 0\<rparr>] \<and>
   projr (buildLineMap docTwoSpans) 2 \<noteq> Some (pathOf (querySelectorAll docTwoSpans ! 2))"
  by code_simp

text \<open>
  C1 (specificity), amended. On a document whose line numbers are within \<open>\<plusminus>2^53\<close>: if
  annotated elements \<open>A\<close> and \<open>B\<close> both cover line \<open>i\<close> and \<open>B\<close>'s path is strictly longer
  than \<open>A\<close>'s, the map stores for \<open>i\<close> the path of the first, in document order, of the
  deepest elements covering \<open>i\<close>; that path is at least as long as \<open>B\<close>'s, and it is
  never \<open>A\<close>'s.
\<close>

theorem specificity:
  assumes ret: "buildLineMap root = Inr m"
    and range: "linesInRange root"
    and A: "A \<in> set (querySelectorAll root)" and B: "B \<in> set (querySelectorAll root)"
    and covA: "coversLine A i" and covB: "coversLine B i"
    and deeper: "length (pathOf A) < length (pathOf B)"
  shows "\<exists>k. firstDeepest (querySelectorAll root) i k \<and>
           m i = Some (pathOf (querySelectorAll root ! k)) \<and>
           length (pathOf B) \<le> length (pathOf (querySelectorAll root ! k)) \<and>
           m i \<noteq> Some (pathOf A)"
proof -
  from ret B covB obtain k where k: "firstDeepest (querySelectorAll root) i k"
    and m: "m i = Some (pathOf (querySelectorAll root ! k))"
    using covered_line_stored by blast
  from k B covB have le: "length (pathOf B) \<le> length (pathOf (querySelectorAll root ! k))"
    by (simp add: firstDeepest_def)
  with deeper have "pathOf (querySelectorAll root ! k) \<noteq> pathOf A"
    by auto
  with k m le show ?thesis by auto
qed

theorem specificity_witness:
  "linesInRange docNested \<and>
   coversLine (querySelectorAll docNested ! 0) 2 \<and> coversLine (querySelectorAll docNested ! 1) 2 \<and>
   length (pathOf (querySelectorAll docNested ! 0)) < length (pathOf (querySelectorAll docNested ! 1)) \<and>
   (\<exists>k. firstDeepest (querySelectorAll docNested) 2 k \<and>
        projr (buildLineMap docNested) 2 = Some (pathOf (querySelectorAll docNested ! k)) \<and>
        length (pathOf (querySelectorAll docNested ! 1)) \<le> length (pathOf (querySelectorAll docNested ! k)) \<and>
        projr (buildLineMap docNested) 2 \<noteq> Some (pathOf (querySelectorAll docNested ! 0)))"
proof -
  have "\<not> isl (buildLineMap docNested)"
    by code_simp
  then have h1: "buildLineMap docNested = Inr (projr (buildLineMap docNested))"
    by (rule Inr_projr)
  have h0: "linesInRange docNested"
    and h2: "querySelectorAll docNested ! 0 \<in> set (querySelectorAll docNested)"
    and h3: "querySelectorAll docNested ! 1 \<in> set (querySelectorAll docNested)"
    and h4: "coversLine (querySelectorAll docNested ! 0) 2"
    and h5: "coversLine (querySelectorAll docNested ! 1) 2"
    and h6: "length (pathOf (querySelectorAll docNested ! 0)) < length (pathOf (querySelectorAll docNested ! 1))"
    by code_simp+
  from h0 h4 h5 h6 specificity [OF h1 h0 h2 h3 h4 h5 h6] show ?thesis
    by blast
qed

text \<open>
  C2 (tie-break), as stated: whenever two annotated elements of equal path depth cover
  line \<open>i\<close>, the map stores the path of the one that comes first in document order.
  This fails in \<open>docDeeperThird\<close>: both paragraphs cover line 0 at depth 1, yet line 0
  maps to the \<open>span\<close> inside the first paragraph, which is deeper.
\<close>

theorem tie_break_counterexample:
  "0 < (2 :: nat) \<and> 2 < length (querySelectorAll docDeeperThird) \<and>
   coversLine (querySelectorAll docDeeperThird ! 0) 0 \<and>
   coversLine (querySelectorAll docDeeperThird ! 2) 0 \<and>
   pathOf (querySelectorAll docDeeperThird ! 0) = [\<lparr>tag = ''p'', index = 0\<rparr>] \<and>
   pathOf (querySelectorAll docDeeperThird ! 2) = [\<lparr>tag = ''p'', index = 1\<rparr>] \<and>
   \<not> isl (buildLineMap docDeeperThird) \<and>
   projr (buildLineMap docDeeperThird) 0 = Some [\<lparr>tag = ''p'', index = 0\<rparr>, \<lparr>tag = ''span'', index = 0\<rparr>] \<and>
   projr (buildLineMap docDeeperThird) 0 \<noteq> Some (pathOf (querySelectorAll docDeeperThird ! 0))"
  by code_simp

text \<open>
  C2 (tie-break), amended. On a document whose line numbers are within \<open>\<plusminus>2^53\<close>: if two
  annotated elements of equal path depth both cover line \<open>i\<close> and no element covering \<open>i\<close>
  has a longer path, the map stores for \<open>i\<close> the path of the first element of that depth
  covering \<open>i\<close> in document order, which stands at or before the earlier of the two.
  Moreover a path of equal length met later never overwrites an existing entry.
\<close>

theorem tie_break:
  assumes ret: "buildLineMap root = Inr m"
    and range: "linesInRange root"
    and ab: "a < b" and b: "b < length (querySelectorAll root)"
    and cova: "coversLine (querySelectorAll root ! a) i"
    and covb: "coversLine (querySelectorAll root ! b) i"
    and equal: "length (pathOf (querySelectorAll root ! a)) = length (pathOf (querySelectorAll root ! b))"
    and deepest: "\<forall>n \<in> set (querySelectorAll root).
           coversLine n i \<longrightarrow> length (pathOf n) \<le> length (pathOf (querySelectorAll root ! a))"
  shows "(\<exists>k \<le> a. firstDeepest (querySelectorAll root) i k \<and>
            m i = Some (pathOf (querySelectorAll root ! k))) \<and>
         (\<forall>m0 j q. m0 j = Some q \<and> length q = length (pathOf (querySelectorAll root ! b)) \<longrightarrow>
            (\<exists>m1. processElement m0 (querySelectorAll root ! b) = Inr m1 \<and> m1 j = Some q))"
proof
  let ?ns = "querySelectorAll root"
  from ab b have a: "?ns ! a \<in> set ?ns" by simp
  with ret cova obtain k where k: "firstDeepest ?ns i k"
    and m: "m i = Some (pathOf (?ns ! k))"
    using covered_line_stored by blast
  have "k \<le> a"
  proof (rule ccontr)
    assume "\<not> k \<le> a"
    then have "a < k" by simp
    moreover from k have "k < length ?ns" by (simp add: firstDeepest_def)
    ultimately have "?ns ! a \<in> set (take k ?ns)"
      by (auto simp: in_set_conv_nth intro!: exI [of _ a])
    with k cova have "length (pathOf (?ns ! a)) < length (pathOf (?ns ! k))"
      by (simp add: firstDeepest_def)
    moreover from k deepest have "length (pathOf (?ns ! k)) \<le> length (pathOf (?ns ! a))"
      by (simp add: firstDeepest_def)
    ultimately show False by simp
  qed
  with k m show "\<exists>k \<le> a. firstDeepest ?ns i k \<and> m i = Some (pathOf (?ns ! k))"
    by blast
next
  let ?B = "querySelectorAll root ! b"
  from b have "?B \<in> set (querySelectorAll root)" by simp
  with ret obtain s where s: "datasetSourceLines (fst ?B) = Some s"
    using buildLineMap_datasets by blast
  show "\<forall>m0 j q. m0 j = Some q \<and> length q = length (pathOf ?B) \<longrightarrow>
          (\<exists>m1. processElement m0 ?B = Inr m1 \<and> m1 j = Some q)"
    using s by (auto simp: processElement_def lineLoop_keeps split: prod.splits)
qed

theorem tie_break_witness:
  "linesInRange docSiblings \<and>
   coversLine (querySelectorAll docSiblings ! 0) 2 \<and> coversLine (querySelectorAll docSiblings ! 1) 2 \<and>
   length (pathOf (querySelectorAll docSiblings ! 0)) = length (pathOf (querySelectorAll docSiblings ! 1)) \<and>
   projr (buildLineMap docSiblings) 2 = Some (pathOf (querySelectorAll docSiblings ! 0)) \<and>
   pathOf (querySelectorAll docSiblings ! 0) = [\<lparr>tag = ''div'', index = 0\<rparr>, \<lparr>tag = ''p'', index = 0\<rparr>]"
proof -
  have "\<not> isl (buildLineMap docSiblings)"
    by code_simp
  then have h1: "buildLineMap docSiblings = Inr (projr (buildLineMap docSiblings))"
    by (rule Inr_projr)
  have h2: "(0 :: nat) < 1" by simp
  have h0: "linesInRange docSiblings"
    and h3: "1 < length (querySelectorAll docSiblings)"
    and h4: "coversLine (querySelectorAll docSiblings ! 0) 2"
    and h5: "coversLine (querySelectorAll docSiblings ! 1) 2"
    and h6: "length (pathOf (querySelectorAll docSiblings ! 0)) = length (pathOf (querySelectorAll docSiblings ! 1))"
    and h7: "\<forall>n \<in> set (querySelectorAll docSiblings).
           coversLine n 2 \<longrightarrow> length (pathOf n) \<le> length (pathOf (querySelectorAll docSiblings ! 0))"
    and h8: "pathOf (querySelectorAll docSiblings ! 0) = [\<lparr>tag = ''div'', index = 0\<rparr>, \<lparr>tag = ''p'', index = 0\<rparr>]"
    by code_simp+
  from tie_break [OF h1 h0 h2 h3 h4 h5 h6 h7]
  have "projr (buildLineMap docSiblings) 2 = Some (pathOf (querySelectorAll docSiblings ! 0))"
    by auto
  with h0 h4 h5 h6 h8 show ?thesis by blast
qed

text \<open>
  C4 (malformed range), as stated: on some input holding an element whose attribute is
  not numeric or has fewer than two tokens, \<open>buildLineMap\<close> fails with a parse error.
  The code never validates the attribute. In \<open>docMalformed\<close> the paragraphs carry \<open>abc\<close>
  (parsed to \<open>NaN\<close>) and \<open>7\<close> (a single token), and \<open>buildLineMap\<close> returns a map, without
  an entry. More generally no value of the attribute makes \<open>buildLineMap\<close> fail: on a
  document whose selected elements all have a \<^verbatim>\<open>dataset\<close> and whose line numbers are
  within \<open>\<plusminus>2^53\<close> it returns a map.
\<close>

theorem malformed_range_counterexample:
  "datasetSourceLines (fst (querySelectorAll docMalformed ! 0)) = Some ''abc'' \<and>
   parseInt ''abc'' = NaN \<and>
   datasetSourceLines (fst (querySelectorAll docMalformed ! 1)) = Some ''7'' \<and>
   length (split ''7'') = 1 \<and>
   linesInRange docMalformed \<and>
   \<not> isl (buildLineMap docMalformed) \<and>
   projr (buildLineMap docMalformed) 7 = None \<and>
   \<not> (\<exists>root. list_all (\<lambda>n. hasDataset (fst n)) (querySelectorAll root) \<and> linesInRange root \<and>
          isl (buildLineMap root))"
proof -
  have "\<not> (\<exists>root. list_all (\<lambda>n. hasDataset (fst n)) (querySelectorAll root) \<and> linesInRange root \<and>
          isl (buildLineMap root))"
  proof
    assume "\<exists>root. list_all (\<lambda>n. hasDataset (fst n)) (querySelectorAll root) \<and> linesInRange root \<and>
          isl (buildLineMap root)"
    then obtain root where "\<forall>n \<in> set (querySelectorAll root). hasDataset (fst n)"
      and fails: "isl (buildLineMap root)"
      by (auto simp: list_all_iff)
    then obtain m where "buildLineMap root = Inr m"
      using buildLineMap_returns by blast
    with fails show False by simp
  qed
  moreover have "datasetSourceLines (fst (querySelectorAll docMalformed ! 0)) = Some ''abc''"
    "parseInt ''abc'' = NaN"
    "datasetSourceLines (fst (querySelectorAll docMalformed ! 1)) = Some ''7''"
    "length (split ''7'') = 1"
    "linesInRange docMalformed"
    "\<not> isl (buildLineMap docMalformed)"
    "projr (buildLineMap docMalformed) 7 = None"
    by code_simp+
  ultimately show ?thesis by blast
qed

text \<open>
  C4 (malformed range), amended. On a document whose line numbers are within \<open>\<plusminus>2^53\<close>,
  a selected element that has a \<^verbatim>\<open>dataset\<close> and whose attribute has fewer than two
  space-separated tokens, or whose first or second token \<open>parseInt\<close> turns into \<open>NaN\<close>, is
  skipped silently instead of being rejected: processing it raises no error and leaves
  the map as it found it, and \<open>buildLineMap\<close> behaves as if the element had not been
  selected.
\<close>

theorem malformed_range_skipped:
  assumes sel: "querySelectorAll root = xs @ elem # ys"
    and range: "linesInRange root"
    and attr: "datasetSourceLines (fst elem) = Some s"
    and malformed: "length (split s) < 2 \<or> parseInt (split s ! 0) = NaN \<or> parseInt (split s ! 1) = NaN"
  shows "processElement m0 elem = Inr m0 \<and>
         buildLineMap root = forElements (xs @ ys) Map.empty"
proof -
  have skip: "processElement m elem = Inr m" for m
  proof -
    from parseRange_malformed [OF malformed]
    have "\<not> (\<exists>a b. fst (parseRange s) = Num a \<and> snd (parseRange s) = Num b \<and> a < b)"
      by auto
    then have "lineLoop (fst (parseRange s)) (snd (parseRange s)) (pathOf elem) m = m"
      by (rule lineLoop_noop)
    with attr show ?thesis
      by (cases "parseRange s") (simp add: processElement_def)
  qed
  then have "forElements (xs @ elem # ys) Map.empty = forElements (xs @ ys) Map.empty"
    by (rule forElements_skip)
  with sel have "buildLineMap root = forElements (xs @ ys) Map.empty"
    by (simp add: buildLineMap_def)
  with skip show ?thesis
    by blast
qed

theorem malformed_range_skipped_witness:
  "querySelectorAll docMalformed = [querySelectorAll docMalformed ! 0] @ (querySelectorAll docMalformed ! 1) # [] \<and>
   linesInRange docMalformed \<and>
   datasetSourceLines (fst (querySelectorAll docMalformed ! 1)) = Some ''7'' \<and>
   length (split ''7'') < 2 \<and>
   processElement Map.empty (querySelectorAll docMalformed ! 1) = Inr Map.empty \<and>
   buildLineMap docMalformed = forElements ([querySelectorAll docMalformed ! 0] @ []) Map.empty"
proof -
  have h1: "querySelectorAll docMalformed = [querySelectorAll docMalformed ! 0] @ (querySelectorAll docMalformed ! 1) # []"
    and h0: "linesInRange docMalformed"
    and h2: "datasetSourceLines (fst (querySelectorAll docMalformed ! 1)) = Some ''7''"
    and h3: "length (split ''7'') < 2"
    by code_simp+
  from h3 have h3': "length (split ''7'') < 2 \<or> parseInt (split ''7'' ! 0) = NaN \<or> parseInt (split ''7'' ! 1) = NaN"
    by (rule disjI1)
  from h1 h0 h2 h3 malformed_range_skipped [OF h1 h0 h2 h3', of Map.empty] show ?thesis
    by blast
qed

text \<open>
  C5 (structural path computation). The path \<open>buildLineMap\<close> computes for an element is
  the one the specification describes: the element and its ancestors up to, but
  excluding, the body element (or up to the document element when there is no body
  above), each giving its lower-cased tag and the number of its preceding siblings with
  the same tag name, listed from the outermost to the element itself.
\<close>

theorem structural_path_computation: "pathOf elem = structuralPath elem"
proof -
  have "walkUp (Some elem) [] =
      rev (map stepOf (takeWhile (\<lambda>a. nodeTagName a \<noteq> ''BODY'') (selfAndAncestors elem))) @ []"
    by (rule walkUp_eq)
  then show ?thesis
    by (simp only: pathOf_def structuralPath_def append_Nil2)
qed

text \<open>
  C6 (empty range). A selected element whose parsed range has \<open>start \<ge> end\<close> contributes
  no entry: it leaves the map as it found it, and the map returned is the one built from
  the other selected elements. The range is the one parsed from the value read through
  the element's \<^verbatim>\<open>dataset\<close>. The example is an element with range (5,5).
\<close>

theorem empty_range_contributes_nothing:
  assumes "querySelectorAll root = xs @ elem # ys"
    and "datasetSourceLines (fst elem) = Some s"
    and "parseRange s = (Num a, Num b)"
    and "b \<le> a"
  shows "processElement m0 elem = Inr m0 \<and>
         buildLineMap root = forElements (xs @ ys) Map.empty"
proof -
  have skip: "processElement m elem = Inr m" for m
  proof -
    from assms(4) have "\<not> (\<exists>a' b'. Num a = Num a' \<and> Num b = Num b' \<and> a' < b')"
      by auto
    then have "lineLoop (Num a) (Num b) (pathOf elem) m = m"
      by (rule lineLoop_noop)
    with assms(2,3) show ?thesis
      by (simp add: processElement_def)
  qed
  then have "forElements (xs @ elem # ys) Map.empty = forElements (xs @ ys) Map.empty"
    by (rule forElements_skip)
  with assms(1) skip show ?thesis
    by (simp add: buildLineMap_def)
qed

theorem empty_range_contributes_nothing_witness:
  "querySelectorAll docEmptyRange = [querySelectorAll docEmptyRange ! 0] @ (querySelectorAll docEmptyRange ! 1) # [] \<and>
   datasetSourceLines (fst (querySelectorAll docEmptyRange ! 1)) = Some ''5 5'' \<and>
   parseRange ''5 5'' = (Num 5, Num 5) \<and>
   processElement Map.empty (querySelectorAll docEmptyRange ! 1) = Inr Map.empty \<and>
   buildLineMap docEmptyRange = forElements ([querySelectorAll docEmptyRange ! 0] @ []) Map.empty"
proof -
  have h1: "querySelectorAll docEmptyRange = [querySelectorAll docEmptyRange ! 0] @ (querySelectorAll docEmptyRange ! 1) # []"
    and h2: "datasetSourceLines (fst (querySelectorAll docEmptyRange ! 1)) = Some ''5 5''"
    and h3: "parseRange ''5 5'' = (Num 5, Num 5)"
    by code_simp+
  have h4: "(5 :: int) \<le> 5" by simp
  from h1 h2 h3 empty_range_contributes_nothing [OF h1 h2 h3 h4, of Map.empty] show ?thesis
    by blast
qed

text \<open>
  C7 (empty input). On a document in which no element carries the attribute,
  \<open>buildLineMap\<close> returns the empty map and raises no error. The witness is the document
  the parser builds from the empty string.
\<close>

theorem no_annotation_empty_map:
  assumes "\<forall>n \<in> set (elementsOf root []). dataSourceLines (fst n) = None"
  shows "buildLineMap root = Inr Map.empty"
proof -
  from assms have "querySelectorAll root = []"
    by (simp add: querySelectorAll_def filter_empty_conv)
  then show ?thesis by (simp add: buildLineMap_def)
qed

theorem no_annotation_empty_map_witness:
  "list_all (\<lambda>n. dataSourceLines (fst n) = None) (elementsOf (document []) []) \<and>
   buildLineMap (document []) = Inr Map.empty"
proof -
  have h: "\<forall>n \<in> set (elementsOf (document []) []). dataSourceLines (fst n) = None"
    by code_simp
  then have "list_all (\<lambda>n. dataSourceLines (fst n) = None) (elementsOf (document []) [])"
    by (simp add: list_all_iff)
  with no_annotation_empty_map [OF h] show ?thesis by simp
qed

text \<open>
  C9 (path normalisation). Every step of every path stored in the map returned by
  \<open>buildLineMap\<close> has a tag without upper-case letters, and, in a document as the HTML
  parser builds it (\<open>bodyTagIsHtml\<close>), no step has the tag \<open>body\<close>.
\<close>

theorem path_tags_normalised:
  assumes "buildLineMap root = Inr m" and "m i = Some p" and "s \<in> set p"
  shows "(\<forall>c \<in> set (tag s). \<not> isUpperCase c) \<and> (bodyTagIsHtml root \<longrightarrow> tag s \<noteq> ''body'')"
proof -
  from assms(1,2) obtain k where k: "firstDeepest (querySelectorAll root) i k"
    and p: "p = pathOf (querySelectorAll root ! k)"
    using stored_path_firstDeepest by blast
  let ?n = "querySelectorAll root ! k"
  from k have n: "?n \<in> set (querySelectorAll root)"
    by (simp add: firstDeepest_def)
  from assms(3) p obtain a where a: "a \<in> set (selfAndAncestors ?n)" "nodeTagName a \<noteq> ''BODY''"
    "tag s = toLowerCase (nodeTagName a)"
    using pathOf_tags by blast
  from a(3) have "\<forall>c \<in> set (tag s). \<not> isUpperCase c"
    by (simp add: toLowerCase_no_upper)
  moreover have "tag s \<noteq> ''body''" if "bodyTagIsHtml root"
  proof
    assume "tag s = ''body''"
    with a(3) have "toLowerCase (nodeTagName a) = ''body''" by simp
    moreover from n have "?n \<in> set (elementsOf root [])"
      by (simp add: querySelectorAll_def)
    then have "a \<in> set (elementsOf root [])"
      using a(1) by (rule ancestors_in_document)
    ultimately have "nodeTagName a = ''BODY''"
      using that unfolding bodyTagIsHtml_def by blast
    with a(2) show False by simp
  qed
  ultimately show ?thesis by blast
qed

theorem path_tags_normalised_witness:
  "projr (buildLineMap docNested) 2 = Some [\<lparr>tag = ''div'', index = 0\<rparr>, \<lparr>tag = ''span'', index = 0\<rparr>] \<and>
   bodyTagIsHtml docNested \<and>
   list_all (\<lambda>c. \<not> isUpperCase c) (tag \<lparr>tag = ''span'', index = 0\<rparr>) \<and>
   tag \<lparr>tag = ''span'', index = 0\<rparr> \<noteq> ''body''"
proof -
  have "\<not> isl (buildLineMap docNested)"
    by code_simp
  then have h1: "buildLineMap docNested = Inr (projr (buildLineMap docNested))"
    by (rule Inr_projr)
  have h2: "projr (buildLineMap docNested) 2 = Some [\<lparr>tag = ''div'', index = 0\<rparr>, \<lparr>tag = ''span'', index = 0\<rparr>]"
    and h4: "bodyTagIsHtml docNested"
    by code_simp+
  have h3: "\<lparr>tag = ''span'', index = 0\<rparr> \<in> set [\<lparr>tag = ''div'', index = 0\<rparr>, \<lparr>tag = ''span'', index = 0\<rparr>]"
    by simp
  from path_tags_normalised [OF h1 h2 h3] h4
  have "list_all (\<lambda>c. \<not> isUpperCase c) (tag \<lparr>tag = ''span'', index = 0\<rparr>)"
    and "tag \<lparr>tag = ''span'', index = 0\<rparr> \<noteq> ''body''"
    by (simp_all only: list_all_iff) blast+
  with h2 h4 show ?thesis by blast
qed

text \<open>
  C10 (editor lookup). \<open>editorForId\<close> returns an editor of the workspace whose id equals
  \<open>editorId\<close> when there is one, and nothing when no editor of the workspace has that id.
\<close>

theorem editorForId_lookup:
  "((\<exists>e \<in> set editors. editor_id e = editorId) \<longrightarrow>
      (\<exists>e \<in> set editors. editorForId editors editorId = Some e \<and> editor_id e = editorId)) \<and>
   ((\<forall>e \<in> set editors. editor_id e \<noteq> editorId) \<longrightarrow> editorForId editors editorId = None)"
  by (induction editors) auto

theorem editorForId_lookup_witness:
  "editorForId [\<lparr>editor_id = 1, editor_state = ''a.md''\<rparr>, \<lparr>editor_id = 2, editor_state = ''b.md''\<rparr>] 2
     = Some \<lparr>editor_id = 2, editor_state = ''b.md''\<rparr> \<and>
   editorForId [\<lparr>editor_id = 1, editor_state = ''a.md''\<rparr>, \<lparr>editor_id = 2, editor_state = ''b.md''\<rparr>] 3
     = None"
proof -
  let ?eds = "[\<lparr>editor_id = 1, editor_state = ''a.md''\<rparr>, \<lparr>editor_id = 2, editor_state = ''b.md''\<rparr>]"
  have h1: "\<exists>e \<in> set ?eds. editor_id e = 2"
    by simp
  have h2: "\<forall>e \<in> set ?eds. editor_id e \<noteq> 3"
    by simp
  from editorForId_lookup [of ?eds 2] h1
  have "\<exists>e \<in> set ?eds. editorForId ?eds 2 = Some e \<and> editor_id e = 2"
    by blast
  then have "editorForId ?eds 2 = Some \<lparr>editor_id = 2, editor_state = ''b.md''\<rparr>"
    by auto
  moreover from editorForId_lookup [of ?eds 3] h2 have "editorForId ?eds 3 = None"
    by blast
  ultimately show ?thesis by blast
qed

end
